theory Spec2Isabelle
  imports Complex_Main
begin

section \<open>The container kernel of main.go\<close>

text \<open>
  The Go program keeps its data behind pointers: a Container holds a slice of
  \<^verbatim>\<open>*Process\<close>, the Kernel a map from ids to \<^verbatim>\<open>*Container\<close>. Two slots of a
  slice, or two containers, may hold the same pointer, and a write through one is seen
  through the other. The model therefore has an explicit store: the objects live in two
  lists (one of Process values, one of Container values) and a pointer is an index into
  its list. An index outside the list stands for a pointer that refers to no object
  (Go's \<^verbatim>\<open>nil\<close>); dereferencing it is the run-time panic of Go, a value of
  type \<open>error\<close> here. Allocation appends to the list, so that a fresh object never
  takes the place of an old one.

  Two things run beside the calls of the methods: the goroutines that
  \<^verbatim>\<open>StartProcesses\<close> launches, kept in the list \<open>tasks\<close> of pointers whose action is
  under way, and whatever else the program runs. The assignment a goroutine makes when its
  action has returned takes no mutex and is a step of its own. The development has two
  grains. In a run of \<open>step\<close> every call of a method is one event, and a goroutine's
  assignment falls between two calls. In a run of \<open>mstep\<close> a call of \<^verbatim>\<open>StopProcesses\<close> is
  taken apart into its tests and assignments, and a goroutine's assignment can fall
  between any two of them, as in the program. Standard output is the list \<open>out\<close> of
  observations, one per call of \<^verbatim>\<open>Printf\<close> or \<^verbatim>\<open>Println\<close>.
\<close>

subsection \<open>Data\<close>

datatype ProcessState = Running | Stopped | Completed

type_synonym pref = nat
type_synonym cref = nat

text \<open>\<open>Action\<close> is a closure in the source; the model keeps an opaque handle for it.\<close>

record Process =
  Name :: string
  Priority :: int
  Action :: nat
  State :: ProcessState

text \<open>The Container's field \<^verbatim>\<open>Name\<close> is \<open>CName\<close> here (a record field is a constant, and
  \<open>Name\<close> is the Process's). \<^verbatim>\<open>CPULoad\<close> is a float64 that the kernel only stores and
  prints.\<close>

record Container =
  ID :: string
  CName :: string
  MemoryMB :: int
  CPULoad :: real
  Processes :: "pref list"

record Kernel =
  Containers :: "string \<rightharpoonup> cref"

datatype obs =
    Created string
  | MonitorHeader
  | MonitorRow string int real int
  | MsgSuccess string string string
  | MsgFailure

text \<open>\<open>NilDeref\<close> is Go's panic on a pointer that refers to no object. The other two are
  not behaviours of the program; they mark a sequence of events that is no run of it:
  \<open>NoTask\<close> one that completes an action nobody launched, \<open>Blocked\<close> one in which a call
  goes on while it has to wait (for a mutex, or for its own earlier step).\<close>

datatype error = NilDeref | NoTask | Blocked

record state =
  procs :: "Process list"
  conts :: "Container list"
  kern :: Kernel
  out :: "obs list"
  tasks :: "pref list"

subsection \<open>Container\<close>

text \<open>\<^verbatim>\<open>func (c *Container) AddProcess(p *Process)\<close>: \<^verbatim>\<open>p.State = Running\<close>, then
  \<^verbatim>\<open>c.Processes = append(c.Processes, p)\<close>.\<close>

definition AddProcess :: "cref \<Rightarrow> pref \<Rightarrow> state \<Rightarrow> error + state" where
  "AddProcess c p s =
     (if \<not> c < length (conts s) then Inl NilDeref
      else if \<not> p < length (procs s) then Inl NilDeref
      else
        let ps = (procs s)[p := (procs s ! p)\<lparr>State := Running\<rparr>];
            C = conts s ! c
        in Inr (s\<lparr>procs := ps,
                   conts := (conts s)[c := C\<lparr>Processes := Processes C @ [p]\<rparr>]\<rparr>))"

text \<open>The loop of \<^verbatim>\<open>StartProcesses\<close>: a goroutine is launched for every process of the
  slice that is Running; the loop itself writes no process.\<close>

fun StartLoop :: "pref list \<Rightarrow> Process list \<Rightarrow> pref list \<Rightarrow> error + pref list" where
  "StartLoop [] h ts = Inr ts"
| "StartLoop (p # ps) h ts =
     (if \<not> p < length h then Inl NilDeref
      else StartLoop ps h (if State (h ! p) = Running then ts @ [p] else ts))"

definition StartProcesses :: "cref \<Rightarrow> state \<Rightarrow> error + state" where
  "StartProcesses c s =
     (if \<not> c < length (conts s) then Inl NilDeref
      else (case StartLoop (Processes (conts s ! c)) (procs s) (tasks s) of
             Inl e \<Rightarrow> Inl e
           | Inr ts \<Rightarrow> Inr (s\<lparr>tasks := ts\<rparr>)))"

text \<open>The body of a launched goroutine: \<^verbatim>\<open>proc.Action()\<close>, then
  \<^verbatim>\<open>proc.State = Completed\<close>. \<open>Complete p\<close> is the moment the action of one goroutine
  of \<open>p\<close> has returned: the assignment is made, whatever the state is by then, and
  the goroutine is over.\<close>

definition Complete :: "pref \<Rightarrow> state \<Rightarrow> error + state" where
  "Complete p s =
     (if p \<notin> set (tasks s) then Inl NoTask
      else if \<not> p < length (procs s) then Inl NilDeref
      else Inr (s\<lparr>procs := (procs s)[p := (procs s ! p)\<lparr>State := Completed\<rparr>],
                   tasks := remove1 p (tasks s)\<rparr>))"

text \<open>The loop of \<^verbatim>\<open>StopProcesses\<close>: \<^verbatim>\<open>if p.State == Running { p.State = Stopped }\<close> for
  every pointer of the slice, in order. This is the body of the method as it runs when no
  goroutine writes meanwhile; \<open>mstep\<close> below takes it apart.\<close>

fun StopLoop :: "pref list \<Rightarrow> Process list \<Rightarrow> error + Process list" where
  "StopLoop [] h = Inr h"
| "StopLoop (p # ps) h =
     (if \<not> p < length h then Inl NilDeref
      else StopLoop ps (if State (h ! p) = Running
                        then h[p := (h ! p)\<lparr>State := Stopped\<rparr>] else h))"

definition StopProcesses :: "cref \<Rightarrow> state \<Rightarrow> error + state" where
  "StopProcesses c s =
     (if \<not> c < length (conts s) then Inl NilDeref
      else (case StopLoop (Processes (conts s ! c)) (procs s) of
             Inl e \<Rightarrow> Inl e
           | Inr h \<Rightarrow> Inr (s\<lparr>procs := h\<rparr>)))"

subsection \<open>Kernel\<close>

text \<open>\<^verbatim>\<open>NewKernel\<close> is the only constructor of a Kernel in the source: the registry is an
  empty map. At the start of the program nothing is allocated, nothing is printed and no
  goroutine runs.\<close>

definition NewKernel :: Kernel where
  "NewKernel = \<lparr>Containers = Map.empty\<rparr>"

definition init :: state where
  "init = \<lparr>procs = [], conts = [], kern = NewKernel, out = [], tasks = []\<rparr>"

text \<open>A composite literal \<^verbatim>\<open>&Process{...}\<close>, as in \<^verbatim>\<open>exampleProcess\<close>: a new object at a
  new address.\<close>

definition newProcess :: "Process \<Rightarrow> state \<Rightarrow> pref \<times> state" where
  "newProcess P s = (length (procs s), s\<lparr>procs := procs s @ [P]\<rparr>)"

text \<open>\<^verbatim>\<open>func (k *Kernel) CreateContainer(id, name string, memory int) *Container\<close>: the
  container is allocated, stored under the id \<open>cid\<close> (\<^verbatim>\<open>k.Containers[id] = c\<close>, with no test of
  the key), the line is printed, the pointer returned.\<close>

definition CreateContainer :: "string \<Rightarrow> string \<Rightarrow> int \<Rightarrow> state \<Rightarrow> cref \<times> state" where
  "CreateContainer cid name memory s =
     (let c = length (conts s);
          C = \<lparr>ID = cid, CName = name, MemoryMB = memory, CPULoad = 0, Processes = []\<rparr>
      in (c, s\<lparr>conts := conts s @ [C],
                kern := (kern s)\<lparr>Containers := (Containers (kern s))(cid \<mapsto> c)\<rparr>,
                out := out s @ [Created name]\<rparr>))"

text \<open>\<^verbatim>\<open>func (k *Kernel) SendMessage(fromID, toID, msg string)\<close>: two lookups with the
  comma-ok form, one line printed on either branch.\<close>

definition SendMessage :: "string \<Rightarrow> string \<Rightarrow> string \<Rightarrow> state \<Rightarrow> error + state" where
  "SendMessage fromID toID msg s =
     (case (Containers (kern s) fromID, Containers (kern s) toID) of
        (Some from, Some to) \<Rightarrow>
          if \<not> from < length (conts s) then Inl NilDeref
          else if \<not> to < length (conts s) then Inl NilDeref
          else Inr (s\<lparr>out := out s @
                        [MsgSuccess (CName (conts s ! from)) (CName (conts s ! to)) msg]\<rparr>)
      | _ \<Rightarrow> Inr (s\<lparr>out := out s @ [MsgFailure]\<rparr>))"

text \<open>The inner loop of \<^verbatim>\<open>Monitor\<close>: \<^verbatim>\<open>active\<close> counts the processes of one container
  that are Running.\<close>

fun countActive :: "pref list \<Rightarrow> Process list \<Rightarrow> int \<Rightarrow> error + int" where
  "countActive [] h active = Inr active"
| "countActive (p # ps) h active =
     (if \<not> p < length h then Inl NilDeref
      else countActive ps h (if State (h ! p) = Running then active + 1 else active))"

text \<open>\<^verbatim>\<open>for _, c := range k.Containers\<close>: Go visits every key of the map once, in an
  order it does not specify. The order of one traversal is the list \<open>ks\<close>, chosen by
  the run time; a theorem about the loop holds for every list that enumerates the keys.
  A string that is not a key is never visited.\<close>

fun rangeContainers :: "string list \<Rightarrow> state \<Rightarrow> error + state" where
  "rangeContainers [] s = Inr s"
| "rangeContainers (k # ks) s =
     (case Containers (kern s) k of
        None \<Rightarrow> rangeContainers ks s
      | Some c \<Rightarrow>
          if \<not> c < length (conts s) then Inl NilDeref
          else (case countActive (Processes (conts s ! c)) (procs s) 0 of
                  Inl e \<Rightarrow> Inl e
                | Inr active \<Rightarrow>
                    rangeContainers ks
                      (s\<lparr>out := out s @
                           [MonitorRow (CName (conts s ! c)) (MemoryMB (conts s ! c))
                              (CPULoad (conts s ! c)) active]\<rparr>)))"

text \<open>\<^verbatim>\<open>Monitor\<close> holds the kernel's mutex for a snapshot only. While it waits for the
  mutex (\<^verbatim>\<open>k.mu.Lock()\<close>, after the header is printed) and while it sleeps
  (\<^verbatim>\<open>time.Sleep(interval)\<close>) the other goroutines run: actions complete, the resource
  simulator of \<^verbatim>\<open>main\<close> rewrites loads and memory. What they do to the store at such a
  point is the argument \<open>others\<close>; neither call writes anything itself.\<close>

definition Lock :: "(state \<Rightarrow> state) \<Rightarrow> state \<Rightarrow> state" where
  "Lock others s = others s"

definition Sleep :: "int \<Rightarrow> (state \<Rightarrow> state) \<Rightarrow> state \<Rightarrow> state" where
  "Sleep interval others s = others s"

text \<open>\<^verbatim>\<open>for i := 0; i < cycles; i++\<close>. \<open>ord i\<close> is the order of the traversal of cycle \<open>i\<close>,
  \<open>others (2 * i)\<close> what the other goroutines do before the snapshot of cycle \<open>i\<close> and
  \<open>others (2 * i + 1)\<close> what they do during its sleep. \<open>cycles\<close> is a Go \<^verbatim>\<open>int\<close>; \<open>i\<close>
  stays below it, so the increment never wraps.\<close>

function MonitorLoop ::
  "int \<Rightarrow> int \<Rightarrow> int \<Rightarrow> (nat \<Rightarrow> string list) \<Rightarrow> (nat \<Rightarrow> state \<Rightarrow> state) \<Rightarrow> state \<Rightarrow> error + state"
where
  "MonitorLoop interval i cycles ord others s =
     (if i < cycles then
        (case rangeContainers (ord (nat i))
                (Lock (others (2 * nat i)) (s\<lparr>out := out s @ [MonitorHeader]\<rparr>)) of
           Inl e \<Rightarrow> Inl e
         | Inr s' \<Rightarrow>
             MonitorLoop interval (i + 1) cycles ord others
               (Sleep interval (others (2 * nat i + 1)) s'))
      else Inr s)"
  by pat_completeness auto
termination
  by (relation "measure (\<lambda>(interval, i, cycles, ord, others, s). nat (cycles - i))") auto

declare MonitorLoop.simps [simp del]

definition Monitor ::
  "int \<Rightarrow> int \<Rightarrow> (nat \<Rightarrow> string list) \<Rightarrow> (nat \<Rightarrow> state \<Rightarrow> state) \<Rightarrow> state \<Rightarrow> error + state"
where
  "Monitor interval cycles ord others s = MonitorLoop interval 0 cycles ord others s"

text \<open>The store after the other goroutines have had their first \<open>n\<close> turns.\<close>

fun ahead :: "(nat \<Rightarrow> state \<Rightarrow> state) \<Rightarrow> nat \<Rightarrow> state \<Rightarrow> state" where
  "ahead others 0 s = s"
| "ahead others (Suc n) s = others n (ahead others n s)"

subsection \<open>Runs\<close>

text \<open>The operations on processes, as events of a run at the grain of whole calls: the
  three methods of a container, called by anyone at any time, and the completion of a
  launched action.\<close>

datatype event =
    EvAddProcess cref pref
  | EvStartProcesses cref
  | EvStopProcesses cref
  | EvComplete pref

fun step :: "event \<Rightarrow> state \<Rightarrow> error + state" where
  "step (EvAddProcess c p) s = AddProcess c p s"
| "step (EvStartProcesses c) s = StartProcesses c s"
| "step (EvStopProcesses c) s = StopProcesses c s"
| "step (EvComplete p) s = Complete p s"

fun run :: "event list \<Rightarrow> state \<Rightarrow> error + state" where
  "run [] s = Inr s"
| "run (e # es) s = (case step e s of Inl err \<Rightarrow> Inl err | Inr s' \<Rightarrow> run es s')"

subsection \<open>Runs in small steps\<close>

text \<open>The goroutine's assignment \<^verbatim>\<open>proc.State = Completed\<close> takes no mutex, so it can fall
  inside a call of \<^verbatim>\<open>StopProcesses\<close>: between two slots, or between the test
  \<^verbatim>\<open>p.State == Running\<close> of a slot and its assignment \<^verbatim>\<open>p.State = Stopped\<close>. The
  small-step machine follows one call of \<^verbatim>\<open>StopProcesses\<close> at this grain. Where the call
  stands is a \<open>stopcall\<close>: not under way, about to test the first of the slots left, or
  about to assign to the process whose test has just succeeded. Calls of \<^verbatim>\<open>AddProcess\<close>
  and \<^verbatim>\<open>StartProcesses\<close> on the container that is being stopped wait for its mutex; on
  another container they go ahead.\<close>

datatype stopcall =
    Idle
  | Checking cref "pref list"
  | Writing cref pref "pref list"

datatype mevent =
    MAddProcess cref pref
  | MStartProcesses cref
  | MStopBegin cref
  | MStopCheck
  | MStopWrite
  | MStopReturn
  | MComplete pref

fun holds_mutex :: "stopcall \<Rightarrow> cref \<Rightarrow> bool" where
  "holds_mutex Idle c = False"
| "holds_mutex (Checking d ps) c = (d = c)"
| "holds_mutex (Writing d p ps) c = (d = c)"

fun mstep :: "mevent \<Rightarrow> stopcall \<times> state \<Rightarrow> error + stopcall \<times> state" where
  "mstep (MAddProcess c p) (k, s) =
     (if holds_mutex k c then Inl Blocked
      else (case AddProcess c p s of Inl e \<Rightarrow> Inl e | Inr s' \<Rightarrow> Inr (k, s')))"
| "mstep (MStartProcesses c) (k, s) =
     (if holds_mutex k c then Inl Blocked
      else (case StartProcesses c s of Inl e \<Rightarrow> Inl e | Inr s' \<Rightarrow> Inr (k, s')))"
| "mstep (MStopBegin c) (k, s) =
     (case k of
        Idle \<Rightarrow>
          if \<not> c < length (conts s) then Inl NilDeref
          else Inr (Checking c (Processes (conts s ! c)), s)
      | _ \<Rightarrow> Inl Blocked)"
| "mstep MStopCheck (k, s) =
     (case k of
        Checking c (p # ps) \<Rightarrow>
          if \<not> p < length (procs s) then Inl NilDeref
          else if State (procs s ! p) = Running then Inr (Writing c p ps, s)
          else Inr (Checking c ps, s)
      | _ \<Rightarrow> Inl Blocked)"
| "mstep MStopWrite (k, s) =
     (case k of
        Writing c p ps \<Rightarrow>
          Inr (Checking c ps, s\<lparr>procs := (procs s)[p := (procs s ! p)\<lparr>State := Stopped\<rparr>]\<rparr>)
      | _ \<Rightarrow> Inl Blocked)"
| "mstep MStopReturn (k, s) =
     (case k of
        Checking c [] \<Rightarrow> Inr (Idle, s)
      | _ \<Rightarrow> Inl Blocked)"
| "mstep (MComplete p) (k, s) =
     (case Complete p s of Inl e \<Rightarrow> Inl e | Inr s' \<Rightarrow> Inr (k, s'))"

fun mrun :: "mevent list \<Rightarrow> stopcall \<times> state \<Rightarrow> error + stopcall \<times> state" where
  "mrun [] ks = Inr ks"
| "mrun (e # es) ks = (case mstep e ks of Inl err \<Rightarrow> Inl err | Inr ks' \<Rightarrow> mrun es ks')"

text \<open>The steps that can fall inside one call of \<^verbatim>\<open>StopProcesses\<close> when no other method is
  called meanwhile: its own tests and assignments, and completions of actions.\<close>

fun inside :: "mevent \<Rightarrow> bool" where
  "inside MStopCheck = True"
| "inside MStopWrite = True"
| "inside (MComplete p) = True"
| "inside e = False"

text \<open>The steps of a call of \<^verbatim>\<open>StopProcesses\<close> on the slots \<open>ps\<close> in store \<open>h\<close> when nothing
  falls inside it.\<close>

fun quiet :: "pref list \<Rightarrow> Process list \<Rightarrow> mevent list" where
  "quiet [] h = []"
| "quiet (p # ps) h =
     (if State (h ! p) = Running
      then MStopCheck # MStopWrite # quiet ps (h[p := (h ! p)\<lparr>State := Stopped\<rparr>])
      else MStopCheck # quiet ps h)"

fun remaining :: "stopcall \<Rightarrow> pref list" where
  "remaining Idle = []"
| "remaining (Checking c ps) = ps"
| "remaining (Writing c p ps) = p # ps"

text \<open>What holds of the store \<open>s\<close> at any point \<open>k\<close> of a call of \<^verbatim>\<open>StopProcesses\<close> that
  began in store \<open>s0\<close> on the slots \<open>held\<close>, when \<open>D\<close> are the processes whose action has
  completed since: only states have changed; a process outside \<open>D\<close> is as it was, or was
  Running, is held and is Stopped now; a held one outside \<open>D\<close> whose slots are all behind
  is not Running; one that was Completed is as it was; one in \<open>D\<close> is Stopped or
  Completed.\<close>

definition stop_inv :: "state \<Rightarrow> pref list \<Rightarrow> pref set \<Rightarrow> stopcall \<times> state \<Rightarrow> bool" where
  "stop_inv s0 held D ks =
     (case ks of (k, s) \<Rightarrow>
        conts s = conts s0 \<and> kern s = kern s0 \<and> out s = out s0 \<and>
        length (procs s) = length (procs s0) \<and>
        k \<noteq> Idle \<and> set (remaining k) \<subseteq> set held \<and>
        (\<forall>c p ps. k = Writing c p ps \<longrightarrow>
           p < length (procs s0) \<and> State (procs s0 ! p) = Running \<and>
           (p \<in> D \<or> State (procs s ! p) = Running)) \<and>
        (\<forall>q < length (procs s0).
           (q \<notin> D \<longrightarrow>
              procs s ! q = procs s0 ! q \<or>
              (q \<in> set held \<and> State (procs s0 ! q) = Running \<and>
               procs s ! q = (procs s0 ! q)\<lparr>State := Stopped\<rparr>)) \<and>
           (q \<notin> D \<and> q \<in> set held \<and> q \<notin> set (remaining k) \<longrightarrow>
              State (procs s ! q) \<noteq> Running) \<and>
           (State (procs s0 ! q) = Completed \<longrightarrow> procs s ! q = procs s0 ! q) \<and>
           (q \<in> D \<longrightarrow>
              procs s ! q = (procs s0 ! q)\<lparr>State := Stopped\<rparr> \<or>
              procs s ! q = (procs s0 ! q)\<lparr>State := Completed\<rparr>)))"

subsection \<open>Well-formed stores\<close>

text \<open>Every pointer held somewhere refers to an object: the registry's values to
  containers, the containers' slices and the goroutines to processes.\<close>

definition wellformed :: "state \<Rightarrow> bool" where
  "wellformed s \<longleftrightarrow>
     (\<forall>k \<in> dom (Containers (kern s)). the (Containers (kern s) k) < length (conts s)) \<and>
     (\<forall>C \<in> set (conts s). \<forall>p \<in> set (Processes C). p < length (procs s)) \<and>
     (\<forall>p \<in> set (tasks s). p < length (procs s))"

subsection \<open>What a snapshot shows\<close>

text \<open>The number of slots of container \<open>c\<close> whose process is Running (a process held in
  two slots is counted in both, as the loop of \<^verbatim>\<open>Monitor\<close> counts it), and the row that
  a snapshot of state \<open>s\<close> prints for the container registered under \<open>k\<close>.\<close>

definition runningCount :: "state \<Rightarrow> cref \<Rightarrow> int" where
  "runningCount s c =
     int (length (filter (\<lambda>p. State (procs s ! p) = Running) (Processes (conts s ! c))))"

definition snapshotRow :: "state \<Rightarrow> string \<Rightarrow> obs" where
  "snapshotRow s k =
     (let c = the (Containers (kern s) k)
      in MonitorRow (CName (conts s ! c)) (MemoryMB (conts s ! c)) (CPULoad (conts s ! c))
           (runningCount s c))"

subsection \<open>Sample states\<close>

text \<open>One container \<^verbatim>\<open>c1\<close> and one process \<^verbatim>\<open>Worker\<close>, as the first lines of \<^verbatim>\<open>main\<close>
  build them: \<open>solo\<close> is the state before the process is attached, \<open>solo_with st held ts\<close>
  the same store with the process in state \<open>st\<close>, the container's slice \<open>held\<close> and the
  goroutines \<open>ts\<close>.\<close>

definition worker :: Process where
  "worker = \<lparr>Name = ''Worker'', Priority = 3, Action = 0, State = Running\<rparr>"

definition solo :: state where
  "solo = snd (newProcess worker (snd (CreateContainer ''c1'' ''WebServer'' 512 init)))"

definition solo_with :: "ProcessState \<Rightarrow> pref list \<Rightarrow> pref list \<Rightarrow> state" where
  "solo_with st held ts =
     \<lparr>procs = [\<lparr>Name = ''Worker'', Priority = 3, Action = 0, State = st\<rparr>],
      conts = [\<lparr>ID = ''c1'', CName = ''WebServer'', MemoryMB = 512, CPULoad = 0,
                Processes = held\<rparr>],
      kern = \<lparr>Containers = [''c1'' \<mapsto> 0]\<rparr>,
      out = [Created ''WebServer''],
      tasks = ts\<rparr>"

text \<open>The state of \<^verbatim>\<open>main\<close> just before \<^verbatim>\<open>StartAll\<close> (the priorities are random in the
  source; these are four of the possible values).\<close>

definition demo :: state where
  "demo =
     \<lparr>procs = [\<lparr>Name = ''HTTP Server'', Priority = 7, Action = 0, State = Running\<rparr>,
               \<lparr>Name = ''Worker'', Priority = 3, Action = 1, State = Running\<rparr>,
               \<lparr>Name = ''DB Engine'', Priority = 9, Action = 2, State = Running\<rparr>,
               \<lparr>Name = ''Backup'', Priority = 0, Action = 3, State = Running\<rparr>],
      conts = [\<lparr>ID = ''c1'', CName = ''WebServer'', MemoryMB = 512, CPULoad = 0,
                Processes = [0, 1]\<rparr>,
               \<lparr>ID = ''c2'', CName = ''Database'', MemoryMB = 1024, CPULoad = 0,
                Processes = [2, 3]\<rparr>],
      kern = \<lparr>Containers = [''c1'' \<mapsto> 0, ''c2'' \<mapsto> 1]\<rparr>,
      out = [Created ''WebServer'', Created ''Database''],
      tasks = []\<rparr>"

text \<open>A later state of the same program: the first container was started, the HTTP server
  has completed, the container was stopped while the worker's action was still under
  way, and the DB engine was then added to the first container too (it is now held by
  both).\<close>

definition mixed :: state where
  "mixed =
     \<lparr>procs = [\<lparr>Name = ''HTTP Server'', Priority = 7, Action = 0, State = Completed\<rparr>,
               \<lparr>Name = ''Worker'', Priority = 3, Action = 1, State = Stopped\<rparr>,
               \<lparr>Name = ''DB Engine'', Priority = 9, Action = 2, State = Running\<rparr>,
               \<lparr>Name = ''Backup'', Priority = 0, Action = 3, State = Running\<rparr>],
      conts = [\<lparr>ID = ''c1'', CName = ''WebServer'', MemoryMB = 512, CPULoad = 0,
                Processes = [0, 1, 2]\<rparr>,
               \<lparr>ID = ''c2'', CName = ''Database'', MemoryMB = 1024, CPULoad = 0,
                Processes = [2, 3]\<rparr>],
      kern = \<lparr>Containers = [''c1'' \<mapsto> 0, ''c2'' \<mapsto> 1]\<rparr>,
      out = [Created ''WebServer'', Created ''Database''],
      tasks = [1]\<rparr>"

text \<open>The state of \<^verbatim>\<open>main\<close> just after \<^verbatim>\<open>StartAll\<close>: four goroutines under way.\<close>

definition started :: state where
  "started = demo\<lparr>tasks := [0, 1, 2, 3]\<rparr>"

text \<open>The same store with the two processes of the first container in states \<open>a\<close> and
  \<open>b\<close> and the goroutines \<open>ts\<close>.\<close>

definition duo :: "ProcessState \<Rightarrow> ProcessState \<Rightarrow> pref list \<Rightarrow> state" where
  "duo a b ts =
     demo\<lparr>procs := (procs demo)[0 := (procs demo ! 0)\<lparr>State := a\<rparr>,
                                  1 := (procs demo ! 1)\<lparr>State := b\<rparr>],
          tasks := ts\<rparr>"

text \<open>The action of \<open>p\<close> returns, if one is under way: a turn of another goroutine.\<close>

definition finish :: "pref \<Rightarrow> state \<Rightarrow> state" where
  "finish p s = (case Complete p s of Inl e \<Rightarrow> s | Inr s' \<Rightarrow> s')"

text \<open>Other goroutines of a sample run: the HTTP server completes during the first sleep,
  the DB engine just before the second snapshot.\<close>

definition meanwhile :: "nat \<Rightarrow> state \<Rightarrow> state" where
  "meanwhile = (\<lambda>n. if n = 1 then finish 0 else if n = 2 then finish 2 else (\<lambda>s. s))"

text \<open>An order of traversal that changes from one cycle to the next.\<close>

definition zigzag :: "nat \<Rightarrow> string list" where
  "zigzag = (\<lambda>i. if even i then [''c1'', ''c2''] else [''c2'', ''c1''])"

section \<open>Properties\<close>

subsection \<open>The sample states are states of the program\<close>

lemma solo_eq: "solo = solo_with Running [] []"
  by (simp add: solo_def solo_with_def newProcess_def CreateContainer_def init_def
      NewKernel_def worker_def Let_def)

lemma solo_stopped_reachable:
  "run [EvAddProcess 0 0, EvStopProcesses 0] solo = Inr (solo_with Stopped [0] [])"
  by (simp add: solo_eq solo_with_def AddProcess_def StopProcesses_def Let_def)

lemma solo_raced_reachable:
  "run [EvAddProcess 0 0, EvStartProcesses 0, EvStopProcesses 0] solo =
     Inr (solo_with Stopped [0] [0])"
  by (simp add: solo_eq solo_with_def AddProcess_def StartProcesses_def StopProcesses_def Let_def)

lemma demo_reachable:
  "(let (c1, s1) = CreateContainer ''c1'' ''WebServer'' 512 init;
        (c2, s2) = CreateContainer ''c2'' ''Database'' 1024 s1;
        (p1, s3) = newProcess \<lparr>Name = ''HTTP Server'', Priority = 7, Action = 0, State = Running\<rparr> s2;
        (p2, s4) = newProcess \<lparr>Name = ''Worker'', Priority = 3, Action = 1, State = Running\<rparr> s3;
        (p3, s5) = newProcess \<lparr>Name = ''DB Engine'', Priority = 9, Action = 2, State = Running\<rparr> s4;
        (p4, s6) = newProcess \<lparr>Name = ''Backup'', Priority = 0, Action = 3, State = Running\<rparr> s5
    in run [EvAddProcess c1 p1, EvAddProcess c1 p2, EvAddProcess c2 p3, EvAddProcess c2 p4] s6)
   = Inr demo"
  by (simp add: demo_def newProcess_def CreateContainer_def init_def NewKernel_def Let_def
      AddProcess_def)

lemma mixed_reachable:
  "run [EvStartProcesses 0, EvComplete 0, EvStopProcesses 0, EvAddProcess 0 2] demo = Inr mixed"
  by (simp add: demo_def mixed_def StartProcesses_def Complete_def StopProcesses_def
      AddProcess_def Let_def)

lemma wf_demo: "wellformed demo"
  by (simp add: wellformed_def demo_def)

lemma wf_mixed: "wellformed mixed"
  by (simp add: wellformed_def mixed_def)

subsection \<open>The loops\<close>

lemma wf_Processes:
  "wellformed s \<Longrightarrow> c < length (conts s) \<Longrightarrow>
   \<forall>p \<in> set (Processes (conts s ! c)). p < length (procs s)"
  by (auto simp: wellformed_def)

lemma wf_registry:
  "wellformed s \<Longrightarrow> Containers (kern s) k = Some c \<Longrightarrow> c < length (conts s)"
  by (auto simp: wellformed_def dom_def)

text \<open>On a slice of pointers that all refer to a process, the loop of \<^verbatim>\<open>StopProcesses\<close>
  ends, and the store it leaves is described slot by slot.\<close>

lemma StopLoop_returns:
  "\<forall>p \<in> set ps. p < length h \<Longrightarrow>
   \<exists>h'. StopLoop ps h = Inr h' \<and> length h' = length h \<and>
        (\<forall>q < length h. h' ! q =
           (if q \<in> set ps \<and> State (h ! q) = Running then (h ! q)\<lparr>State := Stopped\<rparr> else h ! q))"
proof (induction ps arbitrary: h)
  case Nil
  then show ?case by simp
next
  case (Cons p ps)
  let ?h1 = "if State (h ! p) = Running then h[p := (h ! p)\<lparr>State := Stopped\<rparr>] else h"
  from Cons.prems have p: "p < length h" and ps: "\<forall>q \<in> set ps. q < length ?h1" by auto
  from Cons.IH [OF ps] obtain h' where
    r: "StopLoop ps ?h1 = Inr h'" and l: "length h' = length ?h1" and
    n: "\<forall>q < length ?h1. h' ! q =
          (if q \<in> set ps \<and> State (?h1 ! q) = Running then (?h1 ! q)\<lparr>State := Stopped\<rparr> else ?h1 ! q)"
    by blast
  have "StopLoop (p # ps) h = Inr h'" using p r by simp
  moreover have "length h' = length h" using l by simp
  moreover have "\<forall>q < length h. h' ! q =
      (if q \<in> set (p # ps) \<and> State (h ! q) = Running then (h ! q)\<lparr>State := Stopped\<rparr> else h ! q)"
  proof (intro allI impI)
    fix q assume q: "q < length h"
    then have "q < length ?h1" by simp
    with n have e: "h' ! q =
          (if q \<in> set ps \<and> State (?h1 ! q) = Running then (?h1 ! q)\<lparr>State := Stopped\<rparr> else ?h1 ! q)"
      by blast
    show "h' ! q =
      (if q \<in> set (p # ps) \<and> State (h ! q) = Running then (h ! q)\<lparr>State := Stopped\<rparr> else h ! q)"
      using e p q by (cases "q = p") (auto simp: nth_list_update)
  qed
  ultimately show ?case by blast
qed

text \<open>Conversely the loop ends only on such a slice: a pointer to no process is a panic.\<close>

lemma StopLoop_valid: "StopLoop ps h = Inr h' \<Longrightarrow> \<forall>p \<in> set ps. p < length h"
proof (induction ps arbitrary: h)
  case Nil
  then show ?case by simp
next
  case (Cons p ps)
  from Cons.prems have p: "p < length h" by (auto split: if_splits)
  let ?h1 = "if State (h ! p) = Running then h[p := (h ! p)\<lparr>State := Stopped\<rparr>] else h"
  from Cons.prems p have "StopLoop ps ?h1 = Inr h'" by simp
  from Cons.IH [OF this] have "\<forall>q \<in> set ps. q < length h" by (auto split: if_splits)
  with p show ?case by simp
qed

lemma StopLoop_again:
  assumes v: "\<forall>p \<in> set ps. p < length h" and r: "StopLoop ps h = Inr h'"
  shows "StopLoop ps h' = Inr h'"
proof -
  from StopLoop_returns [OF v] r have l: "length h' = length h" and
    n: "\<forall>q < length h. h' ! q =
          (if q \<in> set ps \<and> State (h ! q) = Running then (h ! q)\<lparr>State := Stopped\<rparr> else h ! q)"
    by auto
  from v l have v': "\<forall>p \<in> set ps. p < length h'" by simp
  from StopLoop_returns [OF v'] obtain h'' where
    r': "StopLoop ps h' = Inr h''" and l': "length h'' = length h'" and
    n': "\<forall>q < length h'. h'' ! q =
          (if q \<in> set ps \<and> State (h' ! q) = Running then (h' ! q)\<lparr>State := Stopped\<rparr> else h' ! q)"
    by blast
  have "h'' = h'"
  proof (rule nth_equalityI)
    show "length h'' = length h'" by (rule l')
  next
    fix q assume "q < length h''"
    then have q: "q < length h" using l l' by simp
    then have "State (h' ! q) = Running \<Longrightarrow> q \<notin> set ps" using n by (auto split: if_splits)
    then show "h'' ! q = h' ! q" using n' q l by auto
  qed
  with r' show ?thesis by simp
qed

lemma StartLoop_valid: "StartLoop ps h ts = Inr ts' \<Longrightarrow> \<forall>p \<in> set ps. p < length h"
  by (induction ps arbitrary: ts) (auto split: if_splits)

lemma StartLoop_returns:
  "\<forall>p \<in> set ps. p < length h \<Longrightarrow>
   StartLoop ps h ts = Inr (ts @ filter (\<lambda>p. State (h ! p) = Running) ps)"
  by (induction ps arbitrary: ts) auto



lemma ahead_out:
  assumes "\<forall>n t obs. others n (t\<lparr>out := obs\<rparr>) = (others n t)\<lparr>out := obs\<rparr>"
  shows "out (ahead others n s) = out s"
proof (induction n)
  case 0
  show ?case by simp
next
  case (Suc n)
  from assms have "others n ((ahead others n s)\<lparr>out := out (ahead others n s)\<rparr>) =
      (others n (ahead others n s))\<lparr>out := out (ahead others n s)\<rparr>" by blast
  then have "others n (ahead others n s) =
      (others n (ahead others n s))\<lparr>out := out (ahead others n s)\<rparr>" by simp
  then have "out (others n (ahead others n s)) = out (ahead others n s)"
    by (metis state.select_convs(4) state.surjective state.update_convs(4))
  with Suc show ?case by simp
qed


lemma snapshotRow_out: "snapshotRow (s\<lparr>out := obs\<rparr>) = snapshotRow s"
  by (rule ext) (simp add: snapshotRow_def runningCount_def)


subsection \<open>Steps and runs\<close>

lemma step_length_procs: "step e s = Inr s' \<Longrightarrow> length (procs s') = length (procs s)"
proof (cases e)
  case (EvStopProcesses c)
  assume "step e s = Inr s'"
  with EvStopProcesses obtain h' where
    r: "StopLoop (Processes (conts s ! c)) (procs s) = Inr h'" and s': "s' = s\<lparr>procs := h'\<rparr>"
    by (auto simp: StopProcesses_def split: if_splits sum.splits)
  from StopLoop_returns [OF StopLoop_valid [OF r]] r s' show ?thesis by auto
qed (auto simp: AddProcess_def StartProcesses_def Complete_def Let_def split: if_splits sum.splits)

text \<open>A goroutine stays in \<open>tasks\<close> until its own completion: no method cancels it.\<close>

lemma step_tasks:
  assumes st: "step e s = Inr s'" and p: "p \<in> set (tasks s)" and q: "p < length (procs s)"
  shows "p \<in> set (tasks s') \<or> (e = EvComplete p \<and> State (procs s' ! p) = Completed)"
proof (cases e)
  case (EvAddProcess c p')
  with st p show ?thesis by (auto simp: AddProcess_def Let_def split: if_splits)
next
  case (EvStartProcesses c)
  with st obtain ts where
    r: "StartLoop (Processes (conts s ! c)) (procs s) (tasks s) = Inr ts" and s': "s' = s\<lparr>tasks := ts\<rparr>"
    by (auto simp: StartProcesses_def split: if_splits sum.splits)
  from StartLoop_returns [OF StartLoop_valid [OF r]] r p s' show ?thesis by auto
next
  case (EvStopProcesses c)
  with st p show ?thesis by (auto simp: StopProcesses_def split: if_splits sum.splits)
next
  case (EvComplete p')
  with st p q show ?thesis
    by (cases "p' = p") (auto simp: Complete_def split: if_splits)
qed

lemma run_length_procs: "run es s = Inr s2 \<Longrightarrow> length (procs s2) = length (procs s)"
proof (induction es arbitrary: s)
  case Nil
  then show ?case by simp
next
  case (Cons e es)
  from Cons.prems obtain s1 where st: "step e s = Inr s1" and r: "run es s1 = Inr s2"
    by (auto split: sum.splits)
  from Cons.IH [OF r] step_length_procs [OF st] show ?case by simp
qed

lemma run_tasks:
  "run es s = Inr s2 \<Longrightarrow> p \<in> set (tasks s) \<Longrightarrow> p < length (procs s) \<Longrightarrow>
   p \<in> set (tasks s2) \<or>
   (\<exists>es1 es2 s'. es = es1 @ es2 \<and> run es1 s = Inr s' \<and> State (procs s' ! p) = Completed)"
proof (induction es arbitrary: s)
  case Nil
  then show ?case by simp
next
  case (Cons e es)
  from Cons.prems(1) obtain s1 where st: "step e s = Inr s1" and r: "run es s1 = Inr s2"
    by (auto split: sum.splits)
  from step_length_procs [OF st] Cons.prems(3) have l: "p < length (procs s1)" by simp
  from step_tasks [OF st Cons.prems(2,3)]
  show ?case
  proof
    assume "p \<in> set (tasks s1)"
    from Cons.IH [OF r this l] show ?thesis
    proof
      assume "p \<in> set (tasks s2)"
      then show ?thesis by simp
    next
      assume "\<exists>es1 es2 s'. es = es1 @ es2 \<and> run es1 s1 = Inr s' \<and> State (procs s' ! p) = Completed"
      then obtain es1 es2 s' where "es = es1 @ es2" "run es1 s1 = Inr s'"
        "State (procs s' ! p) = Completed" by blast
      with st have "e # es = (e # es1) @ es2 \<and> run (e # es1) s = Inr s' \<and>
        State (procs s' ! p) = Completed" by simp
      then show ?thesis by blast
    qed
  next
    assume "e = EvComplete p \<and> State (procs s1 ! p) = Completed"
    with st have "e # es = [e] @ es \<and> run [e] s = Inr s1 \<and> State (procs s1 ! p) = Completed"
      by simp
    then show ?thesis by blast
  qed
qed

subsection \<open>Well-formedness is kept\<close>

text \<open>The program starts well-formed and every operation keeps it so: the theorems
  below that assume \<open>wellformed s\<close> speak of every state the program reaches.\<close>

lemma wf_init: "wellformed init"
  by (simp add: wellformed_def init_def NewKernel_def)

lemma wf_newProcess: "wellformed s \<Longrightarrow> wellformed (snd (newProcess P s))"
  by (auto simp: wellformed_def newProcess_def less_Suc_eq)

lemma wf_CreateContainer: "wellformed s \<Longrightarrow> wellformed (snd (CreateContainer cid name memory s))"
  by (auto simp: wellformed_def CreateContainer_def Let_def less_Suc_eq nth_append dom_def)


subsection \<open>A sample of what other goroutines do\<close>

















subsection \<open>One call of StopProcesses in small steps\<close>

lemma started_duo: "started = duo Running Running [0, 1, 2, 3]"
  by (simp add: started_def duo_def demo_def)

text \<open>The goroutine's assignment between the test and the assignment of \<^verbatim>\<open>StopProcesses\<close>:
  the process is Completed when \<^verbatim>\<open>p.State = Stopped\<close> is executed, and ends Stopped with
  no goroutine left. No run of \<open>step\<close> ends so.\<close>

lemma stop_write_race:
  "mrun [MStopBegin 0, MStopCheck, MComplete 0, MStopWrite, MStopReturn]
     (Idle, solo_with Running [0] [0]) = Inr (Idle, solo_with Stopped [0] [])"
  by (simp add: solo_with_def Complete_def)

lemma stop_inv_frame:
  "stop_inv s0 held D (k, s) \<Longrightarrow>
   conts s = conts s0 \<and> kern s = kern s0 \<and> out s = out s0 \<and>
   length (procs s) = length (procs s0) \<and> k \<noteq> Idle \<and> set (remaining k) \<subseteq> set held"
  by (simp add: stop_inv_def)

lemma stop_inv_writing:
  "stop_inv s0 held D (Writing c p ps, s) \<Longrightarrow>
   p < length (procs s0) \<and> State (procs s0 ! p) = Running \<and> (p \<in> D \<or> State (procs s ! p) = Running)"
  by (simp add: stop_inv_def)

lemma stop_inv_fresh:
  "stop_inv s0 held D (k, s) \<Longrightarrow> q < length (procs s0) \<Longrightarrow> q \<notin> D \<Longrightarrow>
   procs s ! q = procs s0 ! q \<or>
   (q \<in> set held \<and> State (procs s0 ! q) = Running \<and>
    procs s ! q = (procs s0 ! q)\<lparr>State := Stopped\<rparr>)"
  unfolding stop_inv_def by (simp only: prod.case; blast)

lemma stop_inv_done:
  "stop_inv s0 held D (k, s) \<Longrightarrow> q < length (procs s0) \<Longrightarrow> q \<notin> D \<Longrightarrow>
   q \<in> set held \<Longrightarrow> q \<notin> set (remaining k) \<Longrightarrow> State (procs s ! q) \<noteq> Running"
  unfolding stop_inv_def by (simp only: prod.case; blast)

lemma stop_inv_completed:
  "stop_inv s0 held D (k, s) \<Longrightarrow> q < length (procs s0) \<Longrightarrow>
   State (procs s0 ! q) = Completed \<Longrightarrow> procs s ! q = procs s0 ! q"
  unfolding stop_inv_def by (simp only: prod.case; blast)

lemma stop_inv_touched:
  "stop_inv s0 held D (k, s) \<Longrightarrow> q < length (procs s0) \<Longrightarrow> q \<in> D \<Longrightarrow>
   procs s ! q = (procs s0 ! q)\<lparr>State := Stopped\<rparr> \<or>
   procs s ! q = (procs s0 ! q)\<lparr>State := Completed\<rparr>"
  unfolding stop_inv_def by (simp only: prod.case; blast)

lemma stop_invI:
  assumes "conts s = conts s0" "kern s = kern s0" "out s = out s0"
    "length (procs s) = length (procs s0)" "k \<noteq> Idle" "set (remaining k) \<subseteq> set held"
    and "\<And>c p ps. k = Writing c p ps \<Longrightarrow>
           p < length (procs s0) \<and> State (procs s0 ! p) = Running \<and>
           (p \<in> D \<or> State (procs s ! p) = Running)"
    and "\<And>q. q < length (procs s0) \<Longrightarrow> q \<notin> D \<Longrightarrow>
           procs s ! q = procs s0 ! q \<or>
           (q \<in> set held \<and> State (procs s0 ! q) = Running \<and>
            procs s ! q = (procs s0 ! q)\<lparr>State := Stopped\<rparr>)"
    and "\<And>q. q < length (procs s0) \<Longrightarrow> q \<notin> D \<Longrightarrow> q \<in> set held \<Longrightarrow>
           q \<notin> set (remaining k) \<Longrightarrow> State (procs s ! q) \<noteq> Running"
    and "\<And>q. q < length (procs s0) \<Longrightarrow> State (procs s0 ! q) = Completed \<Longrightarrow>
           procs s ! q = procs s0 ! q"
    and "\<And>q. q < length (procs s0) \<Longrightarrow> q \<in> D \<Longrightarrow>
           procs s ! q = (procs s0 ! q)\<lparr>State := Stopped\<rparr> \<or>
           procs s ! q = (procs s0 ! q)\<lparr>State := Completed\<rparr>"
  shows "stop_inv s0 held D (k, s)"
  unfolding stop_inv_def using assms by (simp only: prod.case; blast)

lemma stop_inv_begin:
  "stop_inv s0 (Processes (conts s0 ! c)) {} (Checking c (Processes (conts s0 ! c)), s0)"
  by (simp add: stop_inv_def)

lemma stop_inv_check:
  assumes inv: "stop_inv s0 held D (k, s)" and st: "mstep MStopCheck (k, s) = Inr (k', s')"
  shows "stop_inv s0 held D (k', s')"
proof -
  from st obtain c p ps where k: "k = Checking c (p # ps)" and p: "p < length (procs s)"
    and s': "s' = s"
    and k': "k' = (if State (procs s ! p) = Running then Writing c p ps else Checking c ps)"
    by (auto split: stopcall.splits list.splits if_splits)
  note fr = stop_inv_frame [OF inv]
  from fr p have l: "p < length (procs s0)" by simp
  from fr k have held: "p \<in> set held" "set ps \<subseteq> set held" by simp_all
  show ?thesis
  proof (cases "State (procs s ! p) = Running")
    case True
    have r0: "State (procs s0 ! p) = Running"
    proof (cases "p \<in> D")
      case True
      from stop_inv_touched [OF inv l True] \<open>State (procs s ! p) = Running\<close>
      show ?thesis by auto
    next
      case False
      from stop_inv_fresh [OF inv l False] \<open>State (procs s ! p) = Running\<close>
      show ?thesis by auto
    qed
    show ?thesis unfolding s'
    proof (rule stop_invI)
      fix q assume "q < length (procs s0)" "q \<notin> D" "q \<in> set held" "q \<notin> set (remaining k')"
      with k k' True have "q \<notin> set (remaining k)" by simp
      from stop_inv_done [OF inv \<open>q < length (procs s0)\<close> \<open>q \<notin> D\<close> \<open>q \<in> set held\<close> this]
      show "State (procs s ! q) \<noteq> Running" .
    qed (use fr k' True held l r0 stop_inv_fresh [OF inv] stop_inv_completed [OF inv]
          stop_inv_touched [OF inv] in auto)
  next
    case False
    show ?thesis unfolding s'
    proof (rule stop_invI)
      fix q assume q: "q < length (procs s0)" "q \<notin> D" "q \<in> set held" "q \<notin> set (remaining k')"
      show "State (procs s ! q) \<noteq> Running"
      proof (cases "q = p")
        case True
        with False show ?thesis by simp
      next
        case ne: False
        with q k k' False have "q \<notin> set (remaining k)" by simp
        from stop_inv_done [OF inv q(1,2,3) this] show ?thesis .
      qed
    qed (use fr k' False held stop_inv_fresh [OF inv] stop_inv_completed [OF inv]
          stop_inv_touched [OF inv] in auto)
  qed
qed

lemma stop_inv_write:
  assumes inv: "stop_inv s0 held D (k, s)" and st: "mstep MStopWrite (k, s) = Inr (k', s')"
  shows "stop_inv s0 held D (k', s')"
proof -
  from st obtain c p ps where k: "k = Writing c p ps" and k': "k' = Checking c ps"
    and s': "s' = s\<lparr>procs := (procs s)[p := (procs s ! p)\<lparr>State := Stopped\<rparr>]\<rparr>"
    by (auto split: stopcall.splits)
  note fr = stop_inv_frame [OF inv]
  from stop_inv_writing [OF inv [unfolded k]]
  have l: "p < length (procs s0)" and r0: "State (procs s0 ! p) = Running"
    and pd: "p \<in> D \<or> State (procs s ! p) = Running" by simp_all
  from fr k have held: "p \<in> set held" "set ps \<subseteq> set held" by simp_all
  from fr l have lp: "p < length (procs s)" by simp
  have same: "\<And>q. q \<noteq> p \<Longrightarrow> procs s' ! q = procs s ! q" by (simp add: s')
  have new: "procs s' ! p = (procs s ! p)\<lparr>State := Stopped\<rparr>" using lp by (simp add: s')
  show ?thesis
  proof (rule stop_invI)
    fix q assume q: "q < length (procs s0)" "q \<notin> D"
    show "procs s' ! q = procs s0 ! q \<or>
           (q \<in> set held \<and> State (procs s0 ! q) = Running \<and>
            procs s' ! q = (procs s0 ! q)\<lparr>State := Stopped\<rparr>)"
    proof (cases "q = p")
      case True
      with pd q have "State (procs s ! p) = Running" by simp
      with stop_inv_fresh [OF inv l] q True have "procs s ! p = procs s0 ! p" by auto
      with new True held r0 show ?thesis by simp
    next
      case False
      with same stop_inv_fresh [OF inv q] show ?thesis by simp
    qed
  next
    fix q assume q: "q < length (procs s0)" "q \<notin> D" "q \<in> set held" "q \<notin> set (remaining k')"
    show "State (procs s' ! q) \<noteq> Running"
    proof (cases "q = p")
      case True
      with new show ?thesis by simp
    next
      case False
      with q k k' have "q \<notin> set (remaining k)" by simp
      from stop_inv_done [OF inv q(1,2,3) this] same [OF False] show ?thesis by simp
    qed
  next
    fix q assume q: "q < length (procs s0)" "State (procs s0 ! q) = Completed"
    with r0 have "q \<noteq> p" by auto
    with same stop_inv_completed [OF inv q] show "procs s' ! q = procs s0 ! q" by simp
  next
    fix q assume q: "q < length (procs s0)" "q \<in> D"
    show "procs s' ! q = (procs s0 ! q)\<lparr>State := Stopped\<rparr> \<or>
           procs s' ! q = (procs s0 ! q)\<lparr>State := Completed\<rparr>"
    proof (cases "q = p")
      case True
      from stop_inv_touched [OF inv q] True new show ?thesis by auto
    next
      case False
      with same stop_inv_touched [OF inv q] show ?thesis by simp
    qed
  qed (use fr k' held s' in auto)
qed

lemma same_Completed: "State P = Completed \<Longrightarrow> P\<lparr>State := Completed\<rparr> = P"
  by (cases P) simp

lemma stop_inv_complete:
  assumes inv: "stop_inv s0 held D (k, s)" and st: "mstep (MComplete p) (k, s) = Inr (k', s')"
  shows "stop_inv s0 held (insert p D) (k', s')"
proof -
  from st have k': "k' = k" and lp: "p < length (procs s)"
    and s': "s' = s\<lparr>procs := (procs s)[p := (procs s ! p)\<lparr>State := Completed\<rparr>],
                    tasks := remove1 p (tasks s)\<rparr>"
    by (auto simp: Complete_def split: if_splits)
  note fr = stop_inv_frame [OF inv]
  from fr lp have l: "p < length (procs s0)" by simp
  have same: "\<And>q. q \<noteq> p \<Longrightarrow> procs s' ! q = procs s ! q" by (simp add: s')
  have new: "procs s' ! p = (procs s ! p)\<lparr>State := Completed\<rparr>" using lp by (simp add: s')
  show ?thesis unfolding k'
  proof (rule stop_invI)
    fix c p' ps assume w: "k = Writing c p' ps"
    from stop_inv_writing [OF inv [unfolded w]] same [of p']
    show "p' < length (procs s0) \<and> State (procs s0 ! p') = Running \<and>
           (p' \<in> insert p D \<or> State (procs s' ! p') = Running)"
      by (cases "p' = p") auto
  next
    fix q assume q: "q < length (procs s0)" "q \<notin> insert p D"
    then have "q \<noteq> p" "q \<notin> D" by auto
    with same stop_inv_fresh [OF inv q(1)]
    show "procs s' ! q = procs s0 ! q \<or>
           (q \<in> set held \<and> State (procs s0 ! q) = Running \<and>
            procs s' ! q = (procs s0 ! q)\<lparr>State := Stopped\<rparr>)" by simp
  next
    fix q assume q: "q < length (procs s0)" "q \<notin> insert p D" "q \<in> set held"
      "q \<notin> set (remaining k)"
    then have "q \<noteq> p" "q \<notin> D" by auto
    with same stop_inv_done [OF inv q(1) _ q(3,4)]
    show "State (procs s' ! q) \<noteq> Running" by simp
  next
    fix q assume q: "q < length (procs s0)" "State (procs s0 ! q) = Completed"
    show "procs s' ! q = procs s0 ! q"
    proof (cases "q = p")
      case True
      with stop_inv_completed [OF inv q] new q(2) show ?thesis by (simp add: same_Completed)
    next
      case False
      with same stop_inv_completed [OF inv q] show ?thesis by simp
    qed
  next
    fix q assume q: "q < length (procs s0)" "q \<in> insert p D"
    show "procs s' ! q = (procs s0 ! q)\<lparr>State := Stopped\<rparr> \<or>
           procs s' ! q = (procs s0 ! q)\<lparr>State := Completed\<rparr>"
    proof (cases "q = p")
      case True
      have "procs s ! p = procs s0 ! p \<or> procs s ! p = (procs s0 ! p)\<lparr>State := Stopped\<rparr> \<or>
            procs s ! p = (procs s0 ! p)\<lparr>State := Completed\<rparr>"
        using stop_inv_fresh [OF inv l] stop_inv_touched [OF inv l] by (cases "p \<in> D") auto
      with new True show ?thesis by auto
    next
      case False
      with q have "q \<in> D" by simp
      with False same stop_inv_touched [OF inv q(1)] show ?thesis by simp
    qed
  qed (use fr s' in auto)
qed

lemma mrun_append:
  "mrun (es1 @ es2) ks = (case mrun es1 ks of Inl e \<Rightarrow> Inl e | Inr ks1 \<Rightarrow> mrun es2 ks1)"
  by (induction es1 arbitrary: ks) (auto split: sum.splits)

lemma stop_inv_run:
  "stop_inv s0 held D ks \<Longrightarrow> \<forall>e \<in> set es. inside e \<Longrightarrow> mrun es ks = Inr ks' \<Longrightarrow>
   stop_inv s0 held (D \<union> {p. MComplete p \<in> set es}) ks'"
proof (induction es arbitrary: D ks)
  case Nil
  then show ?case by simp
next
  case (Cons e es)
  obtain k s where ks: "ks = (k, s)" by (cases ks)
  from Cons.prems(3) ks obtain k1 s1 where st: "mstep e (k, s) = Inr (k1, s1)"
    and r: "mrun es (k1, s1) = Inr ks'"
    by (auto split: sum.splits)
  from Cons.prems(2) have ie: "inside e" and ies: "\<forall>e \<in> set es. inside e" by simp_all
  from Cons.prems(1) ks have inv: "stop_inv s0 held D (k, s)" by simp
  show ?case
  proof (cases e)
    case MStopCheck
    from stop_inv_check [OF inv st [unfolded MStopCheck]]
    have "stop_inv s0 held D (k1, s1)" .
    from Cons.IH [OF this ies r] MStopCheck show ?thesis by simp
  next
    case MStopWrite
    from stop_inv_write [OF inv st [unfolded MStopWrite]]
    have "stop_inv s0 held D (k1, s1)" .
    from Cons.IH [OF this ies r] MStopWrite show ?thesis by simp
  next
    case (MComplete p)
    from stop_inv_complete [OF inv st [unfolded MComplete]]
    have "stop_inv s0 held (insert p D) (k1, s1)" .
    from Cons.IH [OF this ies r] have
      "stop_inv s0 held (insert p D \<union> {p. MComplete p \<in> set es}) ks'" .
    moreover have "insert p D \<union> {p. MComplete p \<in> set es} =
        D \<union> {q. MComplete q \<in> set (e # es)}"
      using MComplete by auto
    ultimately show ?thesis by simp
  qed (use ie in simp_all)
qed

lemma quiet_run:
  "StopLoop ps (procs s) = Inr h' \<Longrightarrow>
   mrun (quiet ps (procs s)) (Checking c ps, s) = Inr (Checking c [], s\<lparr>procs := h'\<rparr>)"
proof (induction ps arbitrary: s)
  case Nil
  then show ?case by simp
next
  case (Cons p ps)
  from Cons.prems have p: "p < length (procs s)" by (auto split: if_splits)
  show ?case
  proof (cases "State (procs s ! p) = Running")
    case True
    let ?s1 = "s\<lparr>procs := (procs s)[p := (procs s ! p)\<lparr>State := Stopped\<rparr>]\<rparr>"
    from Cons.prems p True have "StopLoop ps (procs ?s1) = Inr h'" by simp
    from Cons.IH [OF this] p True show ?thesis by simp
  next
    case False
    with Cons.prems p have "StopLoop ps (procs s) = Inr h'" by simp
    from Cons.IH [OF this] p False show ?thesis by simp
  qed
qed

lemma quiet_inside: "\<forall>e \<in> set (quiet ps h). inside e"
  by (induction ps arbitrary: h) auto

section \<open>The claims\<close>

subsection \<open>C1: the transitions of a process state\<close>

text \<open>C1, as stated: the only transitions any operation performs are Running to Completed
  and Running to Stopped, and a Completed or Stopped process is never moved. Two
  operations of the code do otherwise. The goroutine of a process that was stopped while
  its action ran assigns Completed all the same (Stopped to Completed), and
  \<^verbatim>\<open>AddProcess\<close> assigns Running to a process that is Completed (Completed to Running).\<close>

theorem terminal_counterexample:
  "step (EvComplete 0) (solo_with Stopped [0] [0]) = Inr (solo_with Completed [0] []) \<and>
   State (procs (solo_with Stopped [0] [0]) ! 0) = Stopped \<and>
   State (procs (solo_with Completed [0] []) ! 0) = Completed \<and>
   step (EvAddProcess 0 0) (solo_with Completed [0] []) = Inr (solo_with Running [0, 0] []) \<and>
   State (procs (solo_with Running [0, 0] []) ! 0) = Running"
  by (simp add: solo_with_def Complete_def AddProcess_def Let_def)

text \<open>C1, amended: whenever a step of an operation (\<^verbatim>\<open>AddProcess\<close>, \<^verbatim>\<open>StartProcesses\<close>,
  a test or an assignment of \<^verbatim>\<open>StopProcesses\<close>, or the completion of an action) changes
  the state of a process \<open>q\<close>, it is one of three changes: the assignment of
  \<^verbatim>\<open>StopProcesses\<close> moves \<open>q\<close> to Stopped; the completion of an action of \<open>q\<close> moves it to
  Completed, from whatever state it is in by then; \<^verbatim>\<open>AddProcess\<close> of \<open>q\<close> itself moves it
  to Running, from whatever state it was in. So \<^verbatim>\<open>StartProcesses\<close> changes no state. And
  \<^verbatim>\<open>StopProcesses\<close> comes to assign to \<open>q\<close> only through its test of \<open>q\<close>, at a moment
  when \<open>q\<close> is Running: a process it finds Completed or Stopped it leaves alone. (What the
  assignment does to a process whose action completes between the test and the
  assignment is not part of the statement.)\<close>

theorem state_changes:
  assumes st: "mstep e (k, s) = Inr (k', s')" and q: "q < length (procs s)"
  shows "(State (procs s' ! q) \<noteq> State (procs s ! q) \<longrightarrow>
            (e = MStopWrite \<and> (\<exists>c ps. k = Writing c q ps) \<and> State (procs s' ! q) = Stopped) \<or>
            (e = MComplete q \<and> q \<in> set (tasks s) \<and> State (procs s' ! q) = Completed) \<or>
            (\<exists>c. e = MAddProcess c q \<and> State (procs s' ! q) = Running)) \<and>
         (\<forall>c ps. k' = Writing c q ps \<and> k \<noteq> k' \<longrightarrow>
            e = MStopCheck \<and> k = Checking c (q # ps) \<and> State (procs s ! q) = Running \<and> s' = s)"
proof (cases e)
  case (MAddProcess c p)
  with st q show ?thesis
    by (cases "q = p") (auto simp: AddProcess_def Let_def split: if_splits)
next
  case (MStartProcesses c)
  with st show ?thesis
    by (auto simp: StartProcesses_def split: if_splits sum.splits)
next
  case (MStopBegin c)
  with st show ?thesis
    by (auto split: stopcall.splits if_splits)
next
  case MStopCheck
  with st show ?thesis
    by (auto split: stopcall.splits list.splits if_splits)
next
  case MStopWrite
  with st obtain c p ps where k: "k = Writing c p ps" "k' = Checking c ps"
    and s': "s' = s\<lparr>procs := (procs s)[p := (procs s ! p)\<lparr>State := Stopped\<rparr>]\<rparr>"
    by (auto split: stopcall.splits)
  show ?thesis
  proof (cases "q = p")
    case True
    with MStopWrite k s' q show ?thesis by simp
  next
    case False
    with MStopWrite k s' q show ?thesis by simp
  qed
next
  case MStopReturn
  with st show ?thesis
    by (auto split: stopcall.splits list.splits)
next
  case (MComplete p)
  with st q show ?thesis
    by (cases "q = p") (auto simp: Complete_def split: if_splits)
qed

text \<open>The amended C1 at work: the test and the assignment of \<^verbatim>\<open>StopProcesses\<close> on the
  sample store while the worker runs.\<close>

theorem state_changes_witness:
  "mstep MStopWrite (Writing 0 0 [], solo_with Running [0] [0]) =
     Inr (Checking 0 [], solo_with Stopped [0] [0]) \<and>
   (0::nat) < length (procs (solo_with Running [0] [0])) \<and>
   State (procs (solo_with Stopped [0] [0]) ! 0) \<noteq> State (procs (solo_with Running [0] [0]) ! 0) \<and>
   State (procs (solo_with Stopped [0] [0]) ! 0) = Stopped \<and>
   mstep MStopCheck (Checking 0 [0], solo_with Running [0] [0]) =
     Inr (Writing 0 0 [], solo_with Running [0] [0]) \<and>
   State (procs (solo_with Running [0] [0]) ! 0) = Running"
proof -
  have 1: "mstep MStopWrite (Writing 0 0 [], solo_with Running [0] [0]) =
     Inr (Checking 0 [], solo_with Stopped [0] [0])"
    by (simp add: solo_with_def)
  have 2: "(0::nat) < length (procs (solo_with Running [0] [0]))"
    by (simp add: solo_with_def)
  have 3: "State (procs (solo_with Stopped [0] [0]) ! 0) \<noteq> State (procs (solo_with Running [0] [0]) ! 0)"
    by (simp add: solo_with_def)
  have 4: "mstep MStopCheck (Checking 0 [0], solo_with Running [0] [0]) =
     Inr (Writing 0 0 [], solo_with Running [0] [0])"
    by (simp add: solo_with_def)
  from state_changes [OF 1 2] 3 have "State (procs (solo_with Stopped [0] [0]) ! 0) = Stopped"
    by auto
  moreover from state_changes [OF 4 2] have "State (procs (solo_with Running [0] [0]) ! 0) = Running"
    by auto
  ultimately show ?thesis using 1 2 3 4 by simp
qed

subsection \<open>C2: SendMessage\<close>

text \<open>C2: in every state of the kernel and for every \<open>fromID\<close>, \<open>toID\<close> and text,
  \<^verbatim>\<open>SendMessage\<close> returns and prints exactly one line: the success line, with the names of
  the two containers, when both ids are keys of the registry, and the failure line when
  one of them is not. Nothing else changes: the state after the call is the state before
  it with that one line appended to the output, so nothing is delivered to any
  container.\<close>

theorem SendMessage_observes:
  assumes "wellformed s"
  shows "SendMessage fromID toID msg s =
           Inr (s\<lparr>out := out s @
                  [if fromID \<in> dom (Containers (kern s)) \<and> toID \<in> dom (Containers (kern s))
                   then MsgSuccess (CName (conts s ! the (Containers (kern s) fromID)))
                          (CName (conts s ! the (Containers (kern s) toID))) msg
                   else MsgFailure]\<rparr>)"
proof (cases "Containers (kern s) fromID")
  case None
  then show ?thesis by (simp add: SendMessage_def dom_def)
next
  case f: (Some a)
  show ?thesis
  proof (cases "Containers (kern s) toID")
    case None
    with f show ?thesis by (simp add: SendMessage_def dom_def)
  next
    case (Some b)
    with f wf_registry [OF assms f] wf_registry [OF assms Some]
    show ?thesis by (simp add: SendMessage_def dom_def)
  qed
qed

text \<open>C2 on the state of \<^verbatim>\<open>main\<close>: a message between the two containers, and one from an
  id that is not registered.\<close>

theorem SendMessage_observes_witness:
  "wellformed demo \<and>
   SendMessage ''c1'' ''c2'' ''ping'' demo =
     Inr (demo\<lparr>out := out demo @ [MsgSuccess ''WebServer'' ''Database'' ''ping'']\<rparr>) \<and>
   SendMessage ''x'' ''c2'' ''ping'' demo = Inr (demo\<lparr>out := out demo @ [MsgFailure]\<rparr>)"
  using wf_demo SendMessage_observes [OF wf_demo, of "''c1''" "''c2''" "''ping''"]
    SendMessage_observes [OF wf_demo, of "''x''" "''c2''" "''ping''"]
  by (simp add: demo_def)

subsection \<open>C3: StopProcesses\<close>

text \<open>C3, as stated: after \<^verbatim>\<open>StopProcesses\<close> returns, every process that was Running at
  the start of the call is Stopped. In the state of \<^verbatim>\<open>main\<close> after \<^verbatim>\<open>StartAll\<close> the call on
  the first container stops the HTTP server, the server's action then returns while the
  call is at the second slot, and when the call returns the server, Running at the start,
  is Completed.\<close>

theorem StopProcesses_counterexample:
  "mrun [MStopBegin 0, MStopCheck, MStopWrite, MComplete 0, MStopCheck, MStopWrite, MStopReturn]
     (Idle, duo Running Running [0, 1, 2, 3]) = Inr (Idle, duo Completed Stopped [1, 2, 3]) \<and>
   Processes (conts (duo Running Running [0, 1, 2, 3]) ! 0) = [0, 1] \<and>
   State (procs (duo Running Running [0, 1, 2, 3]) ! 0) = Running \<and>
   State (procs (duo Completed Stopped [1, 2, 3]) ! 0) = Completed"
  by (simp add: duo_def demo_def Complete_def)

text \<open>C3, amended: take a call of \<^verbatim>\<open>StopProcesses\<close> that returns, with any completions of
  actions falling anywhere inside it and no other method called meanwhile. After it,
  every process whose action did not complete during the call is Stopped (nothing else
  of it changed) if the container holds it and it was Running at the start, and is
  exactly as it was otherwise; every process that was Completed at the start is exactly
  as it was, so the call never moves a process that is Completed when it starts; a process
  whose action completed during the call is Stopped or Completed. The containers, the
  registry and the output are as before. And when nothing falls inside the call it
  returns, with the store that the loop of the source computes.\<close>

theorem StopProcesses_stops_running:
  assumes wf: "wellformed s"
    and run: "mrun (MStopBegin c # es @ [MStopReturn]) (Idle, s) = Inr (k', s')"
    and ins: "\<forall>e \<in> set es. inside e"
  shows "k' = Idle \<and> conts s' = conts s \<and> kern s' = kern s \<and> out s' = out s \<and>
         length (procs s') = length (procs s) \<and>
         (\<forall>q < length (procs s).
            (MComplete q \<notin> set es \<longrightarrow>
               procs s' ! q =
                 (if q \<in> set (Processes (conts s ! c)) \<and> State (procs s ! q) = Running
                  then (procs s ! q)\<lparr>State := Stopped\<rparr> else procs s ! q)) \<and>
            (State (procs s ! q) = Completed \<longrightarrow> procs s' ! q = procs s ! q) \<and>
            (MComplete q \<in> set es \<longrightarrow>
               procs s' ! q = (procs s ! q)\<lparr>State := Stopped\<rparr> \<or>
               procs s' ! q = (procs s ! q)\<lparr>State := Completed\<rparr>)) \<and>
         (\<exists>s1. StopProcesses c s = Inr s1 \<and>
               mrun (MStopBegin c # quiet (Processes (conts s ! c)) (procs s) @ [MStopReturn])
                 (Idle, s) = Inr (Idle, s1))"
proof -
  let ?held = "Processes (conts s ! c)"
  from run have c: "c < length (conts s)" by (auto split: if_splits)
  with run have r1: "mrun (es @ [MStopReturn]) (Checking c ?held, s) = Inr (k', s')" by simp
  then obtain k1 s1 where r2: "mrun es (Checking c ?held, s) = Inr (k1, s1)"
    and ret: "mstep MStopReturn (k1, s1) = Inr (k', s')"
    by (auto simp: mrun_append split: sum.splits)
  from ret obtain d where k1: "k1 = Checking d []" and k': "k' = Idle" and s': "s' = s1"
    by (auto split: stopcall.splits list.splits)
  from stop_inv_run [OF stop_inv_begin ins r2]
  have inv: "stop_inv s ?held {p. MComplete p \<in> set es} (Checking d [], s')"
    by (simp add: k1 s')
  note fr = stop_inv_frame [OF inv]
  have "\<forall>q < length (procs s).
            (MComplete q \<notin> set es \<longrightarrow>
               procs s' ! q =
                 (if q \<in> set ?held \<and> State (procs s ! q) = Running
                  then (procs s ! q)\<lparr>State := Stopped\<rparr> else procs s ! q)) \<and>
            (State (procs s ! q) = Completed \<longrightarrow> procs s' ! q = procs s ! q) \<and>
            (MComplete q \<in> set es \<longrightarrow>
               procs s' ! q = (procs s ! q)\<lparr>State := Stopped\<rparr> \<or>
               procs s' ! q = (procs s ! q)\<lparr>State := Completed\<rparr>)"
  proof (intro allI impI conjI)
    fix q assume q: "q < length (procs s)" and n: "MComplete q \<notin> set es"
    then have nd: "q \<notin> {p. MComplete p \<in> set es}" by simp
    show "procs s' ! q =
                 (if q \<in> set ?held \<and> State (procs s ! q) = Running
                  then (procs s ! q)\<lparr>State := Stopped\<rparr> else procs s ! q)"
    proof (cases "q \<in> set ?held \<and> State (procs s ! q) = Running")
      case True
      then have "State (procs s' ! q) \<noteq> Running"
        using stop_inv_done [OF inv q nd] by simp
      with stop_inv_fresh [OF inv q nd] True show ?thesis by auto
    next
      case False
      with stop_inv_fresh [OF inv q nd] show ?thesis by auto
    qed
  next
    fix q assume "q < length (procs s)" "State (procs s ! q) = Completed"
    then show "procs s' ! q = procs s ! q" by (rule stop_inv_completed [OF inv])
  next
    fix q assume "q < length (procs s)" "MComplete q \<in> set es"
    then show "procs s' ! q = (procs s ! q)\<lparr>State := Stopped\<rparr> \<or>
               procs s' ! q = (procs s ! q)\<lparr>State := Completed\<rparr>"
      using stop_inv_touched [OF inv] by simp
  qed
  moreover have "\<exists>s1. StopProcesses c s = Inr s1 \<and>
               mrun (MStopBegin c # quiet ?held (procs s) @ [MStopReturn]) (Idle, s) = Inr (Idle, s1)"
  proof -
    from StopLoop_returns [OF wf_Processes [OF wf c]] obtain h' where
      h: "StopLoop ?held (procs s) = Inr h'" by blast
    have "StopProcesses c s = Inr (s\<lparr>procs := h'\<rparr>)"
      using c h by (simp add: StopProcesses_def)
    moreover have "mrun (MStopBegin c # quiet ?held (procs s) @ [MStopReturn]) (Idle, s) =
        Inr (Idle, s\<lparr>procs := h'\<rparr>)"
      using c quiet_run [OF h, of c] by (simp add: mrun_append)
    ultimately show ?thesis by blast
  qed
  ultimately show ?thesis using fr k' by simp
qed

text \<open>The amended C3 on the run above: the worker, whose action did not complete, is
  Stopped; the DB engine, not held by the first container, is as it was; the HTTP server,
  whose action completed inside the call, is Stopped or Completed.\<close>

theorem StopProcesses_stops_running_witness:
  "wellformed started \<and>
   mrun (MStopBegin 0 # [MStopCheck, MStopWrite, MComplete 0, MStopCheck, MStopWrite] @ [MStopReturn])
     (Idle, started) = Inr (Idle, duo Completed Stopped [1, 2, 3]) \<and>
   list_all inside [MStopCheck, MStopWrite, MComplete 0, MStopCheck, MStopWrite] \<and>
   procs (duo Completed Stopped [1, 2, 3]) ! 1 = (procs started ! 1)\<lparr>State := Stopped\<rparr> \<and>
   procs (duo Completed Stopped [1, 2, 3]) ! 2 = procs started ! 2 \<and>
   (procs (duo Completed Stopped [1, 2, 3]) ! 0 = (procs started ! 0)\<lparr>State := Stopped\<rparr> \<or>
    procs (duo Completed Stopped [1, 2, 3]) ! 0 = (procs started ! 0)\<lparr>State := Completed\<rparr>)"
proof -
  let ?es = "[MStopCheck, MStopWrite, MComplete 0, MStopCheck, MStopWrite]"
  let ?end = "duo Completed Stopped [1, 2, 3]"
  have w: "wellformed started" by (simp add: wellformed_def started_def demo_def)
  have r: "mrun (MStopBegin 0 # ?es @ [MStopReturn]) (Idle, started) = Inr (Idle, ?end)"
    by (simp add: started_duo duo_def demo_def Complete_def)
  have i: "\<forall>e \<in> set ?es. inside e" by simp
  have l: "0 < length (procs started)" "1 < length (procs started)" "2 < length (procs started)"
    by (simp_all add: started_def demo_def)
  have h: "1 \<in> set (Processes (conts started ! 0))" "State (procs started ! 1) = Running"
    "2 \<notin> set (Processes (conts started ! 0))"
    by (simp_all add: started_def demo_def)
  have c: "MComplete 1 \<notin> set ?es" "MComplete 2 \<notin> set ?es" "MComplete 0 \<in> set ?es" by simp_all
  note t = StopProcesses_stops_running [OF w r i]
  from t l(2) c(1) h(1,2) have 1: "procs ?end ! 1 = (procs started ! 1)\<lparr>State := Stopped\<rparr>"
    by (metis (no_types, lifting))
  from t l(3) c(2) h(3) have 2: "procs ?end ! 2 = procs started ! 2"
    by (metis (no_types, lifting))
  from t l(1) c(3) have 3: "procs ?end ! 0 = (procs started ! 0)\<lparr>State := Stopped\<rparr> \<or>
    procs ?end ! 0 = (procs started ! 0)\<lparr>State := Completed\<rparr>"
    by (metis (no_types, lifting))
  show ?thesis using w r 1 2 3 by (simp add: i)
qed

subsection \<open>C4: AddProcess\<close>




subsection \<open>C5: Monitor\<close>



subsection \<open>C6: CreateContainer on an id that is registered\<close>

text \<open>C6: in every state in which the id is already a key of the registry,
  \<^verbatim>\<open>CreateContainer\<close> returns (it has no error to raise) a newly allocated container,
  other than the one registered so far, and the registry maps the id to the new one from
  then on. The only line printed is the creation line; every other key of the registry
  keeps its container, and the containers and processes that existed are untouched.\<close>

theorem CreateContainer_overwrites:
  assumes "wellformed s" and "cid \<in> dom (Containers (kern s))"
  shows "let (c, s') = CreateContainer cid name memory s in
           c \<noteq> the (Containers (kern s) cid) \<and>
           Containers (kern s') cid = Some c \<and>
           conts s' ! c = \<lparr>ID = cid, CName = name, MemoryMB = memory, CPULoad = 0, Processes = []\<rparr> \<and>
           out s' = out s @ [Created name] \<and>
           (\<forall>k. k \<noteq> cid \<longrightarrow> Containers (kern s') k = Containers (kern s) k) \<and>
           length (conts s') = Suc (length (conts s)) \<and>
           (\<forall>d < length (conts s). conts s' ! d = conts s ! d) \<and>
           procs s' = procs s \<and> tasks s' = tasks s"
proof -
  from assms(2) obtain c0 where c0: "Containers (kern s) cid = Some c0" by blast
  from wf_registry [OF assms(1) c0] c0 show ?thesis
    by (simp add: CreateContainer_def Let_def nth_append)
qed

text \<open>C6 on the state of \<^verbatim>\<open>main\<close>: a second container is created under \<^verbatim>\<open>c1\<close>.\<close>

theorem CreateContainer_overwrites_witness:
  "wellformed demo \<and> ''c1'' \<in> dom (Containers (kern demo)) \<and>
   (let (c, s') = CreateContainer ''c1'' ''Cache'' 64 demo in
      c \<noteq> the (Containers (kern demo) ''c1'') \<and> Containers (kern s') ''c1'' = Some c \<and>
      conts s' ! c = \<lparr>ID = ''c1'', CName = ''Cache'', MemoryMB = 64, CPULoad = 0, Processes = []\<rparr> \<and>
      out s' = out demo @ [Created ''Cache''] \<and>
      Containers (kern s') ''c2'' = Containers (kern demo) ''c2'')"
proof -
  have 2: "''c1'' \<in> dom (Containers (kern demo))" by (simp add: demo_def)
  from CreateContainer_overwrites [OF wf_demo 2, of "''Cache''" 64] wf_demo 2
  show ?thesis by (auto simp: Let_def split: prod.splits)
qed

subsection \<open>C7: CreateContainer on a new id\<close>

text \<open>C7: in every state in which the id is not yet a key of the registry,
  \<^verbatim>\<open>CreateContainer\<close> returns a container that no key referred to before, with the id,
  name and memory of the call, a CPU load of 0 and no process; the registry maps the id
  to it, and has this one key more. Exactly one line is printed, the creation line. Every
  container registered before is still found under its id and is unchanged, and so are
  the processes.\<close>

theorem CreateContainer_registers:
  assumes "wellformed s" and "cid \<notin> dom (Containers (kern s))"
  shows "let (c, s') = CreateContainer cid name memory s in
           conts s' ! c = \<lparr>ID = cid, CName = name, MemoryMB = memory, CPULoad = 0, Processes = []\<rparr> \<and>
           Containers (kern s') cid = Some c \<and>
           dom (Containers (kern s')) = insert cid (dom (Containers (kern s))) \<and>
           out s' = out s @ [Created name] \<and>
           (\<forall>k \<in> dom (Containers (kern s)).
              Containers (kern s) k \<noteq> Some c \<and>
              Containers (kern s') k = Containers (kern s) k \<and>
              conts s' ! the (Containers (kern s') k) = conts s ! the (Containers (kern s) k)) \<and>
           procs s' = procs s \<and> tasks s' = tasks s"
proof -
  have "\<forall>k c. Containers (kern s) k = Some c \<longrightarrow> c < length (conts s)"
    using wf_registry [OF assms(1)] by blast
  with assms(2) show ?thesis
    by (auto simp: CreateContainer_def Let_def nth_append)
qed

text \<open>C7 on the state of \<^verbatim>\<open>main\<close>: a third container, under the new id \<^verbatim>\<open>c3\<close>.\<close>

theorem CreateContainer_registers_witness:
  "wellformed demo \<and> ''c3'' \<notin> dom (Containers (kern demo)) \<and>
   (let (c, s') = CreateContainer ''c3'' ''Cache'' 64 demo in
      conts s' ! c = \<lparr>ID = ''c3'', CName = ''Cache'', MemoryMB = 64, CPULoad = 0, Processes = []\<rparr> \<and>
      Containers (kern s') ''c3'' = Some c \<and>
      out s' = out demo @ [Created ''Cache''] \<and>
      Containers (kern s') ''c1'' = Some 0 \<and> conts s' ! 0 = conts demo ! 0 \<and>
      Containers (kern s') ''c2'' = Some 1 \<and> conts s' ! 1 = conts demo ! 1)"
proof -
  have 2: "''c3'' \<notin> dom (Containers (kern demo))" by (simp add: demo_def)
  have k: "''c1'' \<in> dom (Containers (kern demo))" "''c2'' \<in> dom (Containers (kern demo))"
    "Containers (kern demo) ''c1'' = Some 0" "Containers (kern demo) ''c2'' = Some 1"
    by (simp_all add: demo_def)
  obtain c s' where r: "CreateContainer ''c3'' ''Cache'' 64 demo = (c, s')" by force
  from CreateContainer_registers [OF wf_demo 2, of "''Cache''" 64] r
  have a: "conts s' ! c =
        \<lparr>ID = ''c3'', CName = ''Cache'', MemoryMB = 64, CPULoad = 0, Processes = []\<rparr> \<and>
      Containers (kern s') ''c3'' = Some c \<and> out s' = out demo @ [Created ''Cache'']"
    and b: "\<forall>k \<in> dom (Containers (kern demo)).
              Containers (kern s') k = Containers (kern demo) k \<and>
              conts s' ! the (Containers (kern s') k) = conts demo ! the (Containers (kern demo) k)"
    by (simp_all only: Let_def prod.case) blast+
  from b k(1) k(3) have "Containers (kern s') ''c1'' = Some 0 \<and> conts s' ! 0 = conts demo ! 0"
    by (metis option.sel)
  moreover from b k(2) k(4) have "Containers (kern s') ''c2'' = Some 1 \<and> conts s' ! 1 = conts demo ! 1"
    by (metis option.sel)
  ultimately show ?thesis using wf_demo 2 a r by simp
qed

subsection \<open>C8: StartProcesses\<close>

text \<open>C8: \<^verbatim>\<open>StartProcesses\<close> on a container returns at once: no process has changed when
  it returns, so it waited for no action, and for every process \<open>p\<close> of the container
  that is Running at the call a goroutine is under way. Whatever the program does next
  (any run \<open>es\<close> of further calls of the three methods and of completions, on any
  container), that goroutine is not lost. As long as it is under way its action can
  return, and \<open>p\<close> is Completed at that moment; and once no goroutine of \<open>p\<close> is under
  way any more, \<open>p\<close> has been Completed at some point of the run. So \<open>p\<close> reaches
  Completed as soon as its action has returned. The code asks for no exception here: a
  process that was Stopped in between reaches Completed too.\<close>

theorem StartProcesses_liveness:
  assumes "wellformed s" and c: "c < length (conts s)"
    and p: "p \<in> set (Processes (conts s ! c))" and running: "State (procs s ! p) = Running"
  shows "\<exists>s1. StartProcesses c s = Inr s1 \<and> procs s1 = procs s \<and> conts s1 = conts s \<and>
           p \<in> set (tasks s1) \<and>
           (\<forall>es s2. run es s1 = Inr s2 \<longrightarrow>
              (p \<in> set (tasks s2) \<longrightarrow>
                 (\<exists>s3. step (EvComplete p) s2 = Inr s3 \<and> State (procs s3 ! p) = Completed)) \<and>
              (p \<in> set (tasks s2) \<or>
                 (\<exists>es1 es2 s'. es = es1 @ es2 \<and> run es1 s1 = Inr s' \<and>
                    State (procs s' ! p) = Completed)))"
proof -
  have v: "\<forall>p \<in> set (Processes (conts s ! c)). p < length (procs s)"
    by (rule wf_Processes [OF assms(1) c])
  let ?s1 = "s\<lparr>tasks := tasks s @ filter (\<lambda>p. State (procs s ! p) = Running) (Processes (conts s ! c))\<rparr>"
  have 1: "StartProcesses c s = Inr ?s1"
    using c StartLoop_returns [OF v] by (simp add: StartProcesses_def)
  have t: "p \<in> set (tasks ?s1)" using p running by simp
  have l: "p < length (procs ?s1)" using v p by simp
  have "\<forall>es s2. run es ?s1 = Inr s2 \<longrightarrow>
              (p \<in> set (tasks s2) \<longrightarrow>
                 (\<exists>s3. step (EvComplete p) s2 = Inr s3 \<and> State (procs s3 ! p) = Completed)) \<and>
              (p \<in> set (tasks s2) \<or>
                 (\<exists>es1 es2 s'. es = es1 @ es2 \<and> run es1 ?s1 = Inr s' \<and>
                    State (procs s' ! p) = Completed))"
  proof (intro allI impI conjI)
    fix es s2 assume r: "run es ?s1 = Inr s2"
    show "p \<in> set (tasks s2) \<or>
                 (\<exists>es1 es2 s'. es = es1 @ es2 \<and> run es1 ?s1 = Inr s' \<and>
                    State (procs s' ! p) = Completed)"
      by (rule run_tasks [OF r t l])
    assume a: "p \<in> set (tasks s2)"
    from run_length_procs [OF r] l have "p < length (procs s2)" by simp
    with a have "step (EvComplete p) s2 =
          Inr (s2\<lparr>procs := (procs s2)[p := (procs s2 ! p)\<lparr>State := Completed\<rparr>],
                   tasks := remove1 p (tasks s2)\<rparr>)"
      by (simp add: Complete_def)
    with \<open>p < length (procs s2)\<close>
    show "\<exists>s3. step (EvComplete p) s2 = Inr s3 \<and> State (procs s3 ! p) = Completed"
      by simp
  qed
  with 1 t show ?thesis by simp
qed

text \<open>C8 on the state of \<^verbatim>\<open>main\<close>, for the worker of the first container: after
  \<^verbatim>\<open>StartProcesses\<close> and a \<^verbatim>\<open>StopProcesses\<close> the worker's goroutine is still under way,
  and its completion leaves the worker Completed.\<close>

theorem StartProcesses_liveness_witness:
  "wellformed demo \<and> 0 < length (conts demo) \<and> 1 \<in> set (Processes (conts demo ! 0)) \<and>
   State (procs demo ! 1) = Running \<and>
   (\<exists>s1. StartProcesses 0 demo = Inr s1 \<and> procs s1 = procs demo \<and> 1 \<in> set (tasks s1) \<and>
      (\<exists>s2 s3. run [EvStopProcesses 0] s1 = Inr s2 \<and> State (procs s2 ! 1) = Stopped \<and>
         step (EvComplete 1) s2 = Inr s3 \<and> State (procs s3 ! 1) = Completed))"
proof -
  have 2: "0 < length (conts demo)" and 3: "1 \<in> set (Processes (conts demo ! 0))"
    and 4: "State (procs demo ! 1) = Running"
    by (simp_all add: demo_def)
  from StartProcesses_liveness [OF wf_demo 2 3 4] obtain s1 where
    s1: "StartProcesses 0 demo = Inr s1" "procs s1 = procs demo" "conts s1 = conts demo"
      "1 \<in> set (tasks s1)" and
    live: "\<forall>es s2. run es s1 = Inr s2 \<longrightarrow>
              (1 \<in> set (tasks s2) \<longrightarrow>
                 (\<exists>s3. step (EvComplete 1) s2 = Inr s3 \<and> State (procs s3 ! 1) = Completed)) \<and>
              (1 \<in> set (tasks s2) \<or>
                 (\<exists>es1 es2 s'. es = es1 @ es2 \<and> run es1 s1 = Inr s' \<and>
                    State (procs s' ! 1) = Completed))"
    by blast
  have stop: "StopProcesses 0 s1 =
      Inr (s1\<lparr>procs := (procs demo)[0 := (procs demo ! 0)\<lparr>State := Stopped\<rparr>,
                                        1 := (procs demo ! 1)\<lparr>State := Stopped\<rparr>]\<rparr>)"
    using s1(2,3) by (simp add: StopProcesses_def demo_def)
  let ?s2 = "s1\<lparr>procs := (procs demo)[0 := (procs demo ! 0)\<lparr>State := Stopped\<rparr>,
                                        1 := (procs demo ! 1)\<lparr>State := Stopped\<rparr>]\<rparr>"
  have r: "run [EvStopProcesses 0] s1 = Inr ?s2" using stop by simp
  have st: "State (procs ?s2 ! 1) = Stopped" by (simp add: demo_def)
  have pend: "1 \<in> set (tasks ?s2)" using s1(4) by simp
  from live r pend obtain s3 where
    "step (EvComplete 1) ?s2 = Inr s3 \<and> State (procs s3 ! 1) = Completed" by blast
  with r st s1 wf_demo 2 3 4 show ?thesis by blast
qed

subsection \<open>C9: StopProcesses twice\<close>

text \<open>C9: in every state, \<^verbatim>\<open>StopProcesses\<close> on a container returns, and called again on
  the state it left it returns that very state: the second call changes no process state
  and no list.\<close>

theorem StopProcesses_idempotent:
  assumes "wellformed s" and "c < length (conts s)"
  shows "\<exists>s'. StopProcesses c s = Inr s' \<and> StopProcesses c s' = Inr s'"
proof -
  have v: "\<forall>p \<in> set (Processes (conts s ! c)). p < length (procs s)"
    by (rule wf_Processes [OF assms])
  from StopLoop_returns [OF v] obtain h' where
    r: "StopLoop (Processes (conts s ! c)) (procs s) = Inr h'" by blast
  have 1: "StopProcesses c s = Inr (s\<lparr>procs := h'\<rparr>)"
    using assms(2) r by (simp add: StopProcesses_def)
  have 2: "StopProcesses c (s\<lparr>procs := h'\<rparr>) = Inr (s\<lparr>procs := h'\<rparr>)"
    using assms(2) StopLoop_again [OF v r] by (simp add: StopProcesses_def)
  from 1 2 show ?thesis by simp
qed

text \<open>C9 on the first container of \<open>mixed\<close>.\<close>

theorem StopProcesses_idempotent_witness:
  "wellformed mixed \<and> 0 < length (conts mixed) \<and>
   (\<exists>s'. StopProcesses 0 mixed = Inr s' \<and> StopProcesses 0 s' = Inr s')"
proof -
  have 2: "0 < length (conts mixed)" by (simp add: mixed_def)
  from StopProcesses_idempotent [OF wf_mixed 2] wf_mixed 2 show ?thesis by blast
qed

subsection \<open>C10: Monitor with no cycle\<close>

text \<open>C10: in every state, for every interval and whatever the other goroutines would do,
  \<^verbatim>\<open>Monitor\<close> with \<open>cycles\<close> zero or negative returns the state it was called in: no
  header, no row, nothing changed.\<close>

theorem Monitor_no_cycles:
  assumes "cycles \<le> 0"
  shows "Monitor interval cycles ord others s = Inr s"
  using assms by (simp add: Monitor_def MonitorLoop.simps)

text \<open>C10 on \<open>mixed\<close>, for \<open>cycles\<close> of \<open>-2\<close> and of \<open>0\<close>.\<close>

theorem Monitor_no_cycles_witness:
  "(- 2::int) \<le> 0 \<and> Monitor 1000 (- 2) zigzag meanwhile mixed = Inr mixed \<and>
   (0::int) \<le> 0 \<and> Monitor 1000 0 zigzag meanwhile mixed = Inr mixed"
  using Monitor_no_cycles [of "- 2" 1000 zigzag meanwhile mixed]
    Monitor_no_cycles [of 0 1000 zigzag meanwhile mixed]
  by simp

end
